theory Spec2Isabelle
  imports Complex_Main "HOL-Library.Word"
begin

section \<open>The Osu mania bot: data model\<close>

text \<open>
  The embedding follows \<^verbatim>\<open>src/main.py\<close>, class \<^verbatim>\<open>OsuManiaBot\<close>.
  A screen is the thresholded capture: a grid of \<^verbatim>\<open>uint8\<close> samples, given as the list
  of its rows. Python integers are \<open>int\<close>; list positions produced by \<^verbatim>\<open>enumerate\<close>
  and \<^verbatim>\<open>range\<close> are \<open>nat\<close>. Every exception the code can raise on these inputs is a
  value of \<open>error\<close>.
\<close>

type_synonym pixel = "8 word"

type_synonym screen = "pixel list list"

datatype error = IndexError | KeyError nat | ZeroDivisionError

text \<open>The two calls into \<^verbatim>\<open>key_press\<close>, each with the key code it is given.\<close>

datatype action = PressKey int | ReleaseKey int

record bot =
  bbox :: "int \<times> int \<times> int \<times> int"
  columns :: int
  col_states :: "bool list"
  codes :: "nat \<rightharpoonup> int"
  inplay :: bool

text \<open>The dictionary literal assigned to \<^verbatim>\<open>self._codes\<close> (lines 30-39).\<close>

definition key_codes :: "nat \<rightharpoonup> int" where
  "key_codes = map_of
     [(0, 0x02), (1, 0x03), (2, 0x04), (3, 0x05), (4, 0x06),
      (5, 0x07), (6, 0x08), (7, 0x09), (8, 0x10), (9, 0x11)]"

text \<open>
  \<^verbatim>\<open>_initialize_states\<close>: \<^verbatim>\<open>[False for _ in range(self.columns)]\<close>. A range over a
  negative bound is empty, which is what \<open>nat\<close> does to a negative \<open>int\<close>.
\<close>

definition initialize_states :: "int \<Rightarrow> bool list" where
  "initialize_states n = replicate (nat n) False"

text \<open>
  \<^verbatim>\<open>__init__\<close>. No statement of the constructor raises for an integer column count:
  it stores its arguments, builds the state list and the table. The result is a sum so
  that success of the construction is a statement about the model.
\<close>

definition init :: "int \<times> int \<times> int \<times> int \<Rightarrow> int \<Rightarrow> error + bot" where
  "init box n =
     Inr \<lparr>bbox = box, columns = n, col_states = initialize_states n,
          codes = key_codes, inplay = False\<rparr>"

section \<open>Slicing the screen into columns\<close>

text \<open>
  A Python slice bound \<open>k\<close> on a sequence of length \<open>n\<close>: a negative bound counts from
  the end, and every bound is clamped into \<open>0..n\<close>.
\<close>

definition slice_index :: "int \<Rightarrow> nat \<Rightarrow> nat" where
  "slice_index k n = (if k < 0 then nat (max (k + int n) 0) else min (nat k) n)"

definition py_slice :: "'a list \<Rightarrow> int \<Rightarrow> int \<Rightarrow> 'a list" where
  "py_slice xs a b =
     (let lo = slice_index a (length xs); hi = slice_index b (length xs)
      in take (hi - lo) (drop lo xs))"

text \<open>
  \<^verbatim>\<open>round(width * 0.2)\<close>. Python rounds the double \<open>width * 0.2\<close> to the nearest
  integer, a tie going to the even neighbour. The exact product \<open>width / 5\<close> has a
  fractional part among 0, .2, .4, .6, .8, so it is never a tie and lies at least 0.1 away
  from one; the double product differs from it by less than 0.1 as long as
  \<open>\<bar>width\<bar> < 2 ^ 51\<close>, which every screen that fits in memory satisfies. On that range the
  result is the integer nearest to \<open>width / 5\<close>, computed here in integers.
\<close>

definition tolerance_of :: "int \<Rightarrow> int" where
  "tolerance_of width = (width + 2) div 5"

text \<open>
  The inner loop (lines 64-65) for one row: column \<open>i\<close> is extended by
  \<^verbatim>\<open>row[i * width + tolerance: (i + 1) * width - tolerance]\<close>, for \<open>i\<close> counting up from
  the position of the first column of the list.
\<close>

fun extend_cols :: "int \<Rightarrow> int \<Rightarrow> pixel list \<Rightarrow> nat \<Rightarrow> pixel list list \<Rightarrow> pixel list list" where
  "extend_cols width tolerance row i [] = []"
| "extend_cols width tolerance row i (c # cs) =
     (c @ py_slice row (int i * width + tolerance) ((int i + 1) * width - tolerance))
       # extend_cols width tolerance row (Suc i) cs"

text \<open>The outer loop (line 63) over the rows of the screen.\<close>

fun slice_rows :: "int \<Rightarrow> int \<Rightarrow> screen \<Rightarrow> pixel list list \<Rightarrow> pixel list list" where
  "slice_rows width tolerance [] cols = cols"
| "slice_rows width tolerance (row # rows) cols =
     slice_rows width tolerance rows (extend_cols width tolerance row 0 cols)"

text \<open>
  \<^verbatim>\<open>_slice_columns\<close>. \<^verbatim>\<open>screen[0]\<close> is evaluated first and raises on a screen without
  rows; the floor division raises on a zero column count. Python's \<^verbatim>\<open>//\<close> and HOL's
  \<open>div\<close> on \<open>int\<close> both round towards minus infinity.
\<close>

definition slice_columns :: "bot \<Rightarrow> screen \<Rightarrow> error + pixel list list" where
  "slice_columns b screen =
     (case screen of
        [] \<Rightarrow> Inl IndexError
      | row0 # _ \<Rightarrow>
          if columns b = 0 then Inl ZeroDivisionError
          else
            let width = int (length row0) div columns b;
                tolerance = tolerance_of width;
                cols = replicate (nat (columns b)) []
            in Inr (slice_rows width tolerance screen cols))"

section \<open>Pressing and releasing keys\<close>

text \<open>\<^verbatim>\<open>np.all(col)\<close>: every element is nonzero; true of the empty list.\<close>

definition np_all :: "pixel list \<Rightarrow> bool" where
  "np_all col = list_all (\<lambda>p. p \<noteq> 0) col"

text \<open>
  The loop of \<^verbatim>\<open>_handle_press\<close> from position \<open>i\<close> on. The result is what the call
  leaves behind: the key actions issued in order, the state list, and the exception that
  ended the loop, if any. Both conditions read \<^verbatim>\<open>self._col_states[i]\<close> unless the
  other conjunct already decided them, and exactly one of the two chains reaches it
  first, so a position beyond the state list raises before anything else; the key lookup
  \<^verbatim>\<open>self._codes[i]\<close> comes before the key call and the assignment.
\<close>

fun handle_cols ::
  "(nat \<rightharpoonup> int) \<Rightarrow> nat \<Rightarrow> pixel list list \<Rightarrow> bool list \<Rightarrow> action list \<times> bool list \<times> error option"
where
  "handle_cols cs i [] states = ([], states, None)"
| "handle_cols cs i (col # rest) states =
     (if length states \<le> i then ([], states, Some IndexError)
      else if np_all col \<and> \<not> states ! i then
        (case cs i of
           None \<Rightarrow> ([], states, Some (KeyError i))
         | Some k \<Rightarrow>
             (case handle_cols cs (Suc i) rest (states[i := True]) of
                (acts, states', err) \<Rightarrow> (PressKey k # acts, states', err)))
      else if \<not> np_all col \<and> states ! i then
        (case cs i of
           None \<Rightarrow> ([], states, Some (KeyError i))
         | Some k \<Rightarrow>
             (case handle_cols cs (Suc i) rest (states[i := False]) of
                (acts, states', err) \<Rightarrow> (ReleaseKey k # acts, states', err)))
      else handle_cols cs (Suc i) rest states)"

definition handle_press :: "bot \<Rightarrow> pixel list list \<Rightarrow> action list \<times> bot \<times> error option" where
  "handle_press b cols =
     (case handle_cols (codes b) 0 cols (col_states b) of
        (acts, states', err) \<Rightarrow> (acts, b\<lparr>col_states := states'\<rparr>, err))"

text \<open>
  One iteration of the loop of \<^verbatim>\<open>run\<close> on a thresholded screen (lines 127-129): slice,
  then handle the presses.
\<close>

definition process_frame :: "bot \<Rightarrow> screen \<Rightarrow> action list \<times> bot \<times> error option" where
  "process_frame b screen =
     (case slice_columns b screen of
        Inl e \<Rightarrow> ([], b, Some e)
      | Inr cols \<Rightarrow> handle_press b cols)"

text \<open>
  A sequence of calls of \<^verbatim>\<open>_handle_press\<close> on the same bot, one per element of the
  list; an exception ends the sequence, as nothing in the program catches it.
\<close>

fun handle_press_calls :: "bot \<Rightarrow> pixel list list list \<Rightarrow> action list \<times> bot \<times> error option" where
  "handle_press_calls b [] = ([], b, None)"
| "handle_press_calls b (cols # rest) =
     (case handle_press b cols of
        (acts, b', Some e) \<Rightarrow> (acts, b', Some e)
      | (acts, b', None) \<Rightarrow>
          (case handle_press_calls b' rest of
             (acts', b'', err) \<Rightarrow> (acts @ acts', b'', err)))"

text \<open>
  The signals of a screen as \<^verbatim>\<open>_handle_press\<close> reads them: \<^verbatim>\<open>np.all\<close> of each
  column that \<^verbatim>\<open>_slice_columns\<close> returns.
\<close>

definition column_signals :: "bot \<Rightarrow> screen \<Rightarrow> error + bool list" where
  "column_signals b screen =
     (case slice_columns b screen of
        Inl e \<Rightarrow> Inl e
      | Inr cols \<Rightarrow> Inr (map np_all cols))"

section \<open>The specification's vocabulary\<close>

text \<open>
  The definitions of this section follow the wording of the specification, not the code;
  the theorems compare them with the functions above.
\<close>

text \<open>The band width: \<open>frameWidth / columnCount\<close> in integer division.\<close>

definition band_width :: "nat \<Rightarrow> nat \<Rightarrow> nat" where
  "band_width frameWidth columnCount = frameWidth div columnCount"

text \<open>Rounding a real number to the nearest integer, a tie going to the even one.\<close>

definition round_half_even :: "real \<Rightarrow> int" where
  "round_half_even x =
     (let f = \<lfloor>x\<rfloor>; d = x - of_int f
      in if d < 1 / 2 then f else if 1 / 2 < d then f + 1
         else if even f then f else f + 1)"

text \<open>The tolerance: \<open>round(width * 0.2)\<close>.\<close>

definition band_tolerance :: "nat \<Rightarrow> nat" where
  "band_tolerance width = nat (round_half_even (real width * 0.2))"

text \<open>
  The band of column \<open>i\<close> in one row: the samples at the positions from
  \<open>i * width + tolerance\<close> up to, not including, \<open>(i + 1) * width - tolerance\<close>.
\<close>

definition band :: "nat \<Rightarrow> nat \<Rightarrow> nat \<Rightarrow> pixel list \<Rightarrow> pixel list" where
  "band width tolerance i row =
     map ((!) row) [i * width + tolerance..<(i + 1) * width - tolerance]"

text \<open>The bands of all columns, each over all rows of the frame.\<close>

definition bands :: "nat \<Rightarrow> nat \<Rightarrow> screen \<Rightarrow> pixel list list" where
  "bands frameWidth columnCount frame =
     (let width = band_width frameWidth columnCount;
          tolerance = band_tolerance width
      in map (\<lambda>i. concat (map (band width tolerance i) frame)) [0..<columnCount])"

text \<open>
  The action the specification's \<open>update\<close> emits for one column, from its signal, its
  held state and its key, and the state it leaves.
\<close>

definition spec_action :: "bool \<Rightarrow> bool \<Rightarrow> int \<Rightarrow> action list" where
  "spec_action signal held k =
     (if signal \<and> \<not> held then [PressKey k]
      else if \<not> signal \<and> held then [ReleaseKey k]
      else [])"

definition spec_state :: "bool \<Rightarrow> bool \<Rightarrow> bool" where
  "spec_state signal held =
     (if signal \<and> \<not> held then True
      else if \<not> signal \<and> held then False
      else held)"

text \<open>
  The actions of one column within a trace: those on the key the table binds to the
  column. A column without a key has none.
\<close>

fun action_key :: "action \<Rightarrow> int" where
  "action_key (PressKey k) = k"
| "action_key (ReleaseKey k) = k"

definition column_actions :: "(nat \<rightharpoonup> int) \<Rightarrow> nat \<Rightarrow> action list \<Rightarrow> action list" where
  "column_actions cs i acts =
     (case cs i of
        None \<Rightarrow> []
      | Some k \<Rightarrow> filter (\<lambda>a. action_key a = k) acts)"

text \<open>
  A trace of one key alternates from a held state: a press only while the key is not
  held, a release only while it is. \<open>held_end\<close> is the held state the trace leaves.
\<close>

fun alternates :: "bool \<Rightarrow> action list \<Rightarrow> bool" where
  "alternates held [] = True"
| "alternates held (PressKey k # acts) = (\<not> held \<and> alternates True acts)"
| "alternates held (ReleaseKey k # acts) = (held \<and> alternates False acts)"

fun held_end :: "bool \<Rightarrow> action list \<Rightarrow> bool" where
  "held_end held [] = held"
| "held_end held (PressKey k # acts) = held_end True acts"
| "held_end held (ReleaseKey k # acts) = held_end False acts"

section \<open>Rounding and slices\<close>

lemma tolerance_of_round: "tolerance_of w = round_half_even (of_int w * 0.2)"
proof -
  define q r where "q = w div 5" and "r = w mod 5"
  have w: "w = 5 * q + r" and r: "0 \<le> r" "r < 5"
    by (simp_all add: q_def r_def)
  have "real_of_int (5 * q + r) * 0.2 = of_int q + of_int r / 5"
    by simp
  then have x: "(of_int w * 0.2 :: real) = of_int q + of_int r / 5"
    by (simp only: w [symmetric])
  have fl: "\<lfloor>of_int w * 0.2 :: real\<rfloor> = q"
    unfolding x using r by (simp add: floor_unique)
  have d: "(of_int w * 0.2 :: real) - of_int q = of_int r / 5"
    unfolding x by simp
  have lt: "(real_of_int r / 5 < 1 / 2) = (r \<le> 2)" by auto
  have gt: "(1 / 2 < real_of_int r / 5) = (3 \<le> r)" by auto
  have t: "tolerance_of w = (if r \<le> 2 then q else q + 1)"
    unfolding tolerance_of_def w using r by auto
  show ?thesis
    unfolding round_half_even_def Let_def fl d lt gt t using r by auto
qed

lemma take_drop_nth:
  "j \<le> length xs \<Longrightarrow> take (j - i) (drop i xs) = map ((!) xs) [i..<j]"
  by (rule nth_equalityI) auto

lemma py_slice_nat:
  assumes "0 \<le> a" and "0 \<le> b" and "nat b \<le> length xs"
  shows "py_slice xs a b = map ((!) xs) [nat a..<nat b]"
proof (cases "a \<le> b")
  case True
  with assms show ?thesis
    by (simp add: py_slice_def slice_index_def Let_def take_drop_nth min_def)
next
  case False
  with assms have "nat b \<le> nat a" by simp
  with assms have "min (nat b) (length xs) - min (nat a) (length xs) = 0" by simp
  with assms \<open>nat b \<le> nat a\<close> show ?thesis
    by (simp add: py_slice_def slice_index_def Let_def)
qed

lemma length_extend_cols [simp]: "length (extend_cols w t row i cols) = length cols"
  by (induction cols arbitrary: i) simp_all

lemma nth_extend_cols:
  "j < length cols \<Longrightarrow>
   extend_cols w t row i cols ! j =
     cols ! j @ py_slice row (int (i + j) * w + t) ((int (i + j) + 1) * w - t)"
proof (induction cols arbitrary: i j)
  case Nil
  then show ?case by simp
next
  case (Cons c cs)
  show ?case
  proof (cases j)
    case 0
    then show ?thesis by simp
  next
    case (Suc m)
    with Cons.prems have "m < length cs" by simp
    from Cons.IH [OF this, of "Suc i"] Suc show ?thesis by simp
  qed
qed

lemma length_slice_rows [simp]: "length (slice_rows w t rows cols) = length cols"
  by (induction rows arbitrary: cols) simp_all

lemma nth_slice_rows:
  "j < length cols \<Longrightarrow>
   slice_rows w t rows cols ! j =
     cols ! j @ concat (map (\<lambda>row. py_slice row (int j * w + t) ((int j + 1) * w - t)) rows)"
proof (induction rows arbitrary: cols)
  case Nil
  then show ?case by simp
next
  case (Cons row rows)
  then show ?case by (simp add: nth_extend_cols)
qed

lemma slice_rows_replicate:
  "slice_rows w t rows (replicate n []) =
     map (\<lambda>j. concat (map (\<lambda>row. py_slice row (int j * w + t) ((int j + 1) * w - t)) rows)) [0..<n]"
  by (rule nth_equalityI) (simp_all add: nth_slice_rows)

section \<open>One call of the press handler\<close>

lemma spec_state_signal: "spec_state signal held = signal"
  by (simp add: spec_state_def)

lemma handle_cols_step:
  assumes "i < length states" and "cs i = Some k"
  shows "handle_cols cs i (col # rest) states =
     (case handle_cols cs (Suc i) rest (states[i := np_all col]) of
        (acts, states', err) \<Rightarrow> (spec_action (np_all col) (states ! i) k @ acts, states', err))"
proof (cases "np_all col = states ! i")
  case True
  then have "states[i := np_all col] = states" by simp
  with True assms show ?thesis by (auto simp: spec_action_def split: prod.splits)
next
  case False
  with assms show ?thesis by (auto simp: spec_action_def split: prod.splits)
qed

lemma map_upt_Suc: "map f [0..<Suc n] = f 0 # map (\<lambda>j. f (Suc j)) [0..<n]"
  by (simp add: upt_conv_Cons map_Suc_upt [symmetric] del: upt_Suc)

lemma handle_cols_bound:
  assumes "i + length cols \<le> length states"
    and "\<forall>j<length cols. cs (i + j) \<noteq> None"
  shows "handle_cols cs i cols states =
     (concat (map (\<lambda>j. spec_action (np_all (cols ! j)) (states ! (i + j)) (the (cs (i + j))))
                [0..<length cols]),
      take i states @ map np_all cols @ drop (i + length cols) states,
      None)"
  using assms
proof (induction cols arbitrary: i states)
  case Nil
  then show ?case by simp
next
  case (Cons col rest)
  from Cons.prems have i: "i < length states" by simp
  from Cons.prems obtain k where k: "cs i = Some k" by fastforce
  let ?st = "states[i := np_all col]"
  have len: "Suc i + length rest \<le> length ?st" using Cons.prems by simp
  have dom: "\<forall>j<length rest. cs (Suc i + j) \<noteq> None"
  proof (intro allI impI)
    fix j assume "j < length rest"
    then have "Suc j < length (col # rest)" by simp
    with Cons.prems(2) have "cs (i + Suc j) \<noteq> None" by blast
    then show "cs (Suc i + j) \<noteq> None" by simp
  qed
  have st: "take (Suc i) ?st = take i states @ [np_all col]"
    using i by (simp add: take_Suc_conv_app_nth)
  have nth: "\<And>j. ?st ! (Suc i + j) = states ! (i + Suc j)" by simp
  have step: "handle_cols cs i (col # rest) states =
     (case handle_cols cs (Suc i) rest ?st of
        (acts, states', err) \<Rightarrow> (spec_action (np_all col) (states ! i) k @ acts, states', err))"
    using i k by (rule handle_cols_step)
  show ?case
    unfolding step Cons.IH [OF len dom]
    using k st by (simp add: map_upt_Suc nth del: upt_Suc)
qed

lemma handle_cols_steady:
  "map np_all cols = drop i states \<Longrightarrow> handle_cols cs i cols states = ([], states, None)"
proof (induction cols arbitrary: i)
  case Nil
  then show ?case by simp
next
  case (Cons col rest)
  from Cons.prems have i: "i < length states"
    by (cases "i < length states") auto
  from Cons.prems i have "np_all col = states ! i" "map np_all rest = drop (Suc i) states"
    by (simp_all add: Cons_nth_drop_Suc [symmetric])
  with Cons.IH i show ?case by simp
qed

lemma handle_press_steady:
  "map np_all cols = col_states b \<Longrightarrow> handle_press b cols = ([], b, None)"
  by (simp add: handle_press_def handle_cols_steady)

section \<open>The columns of a screen\<close>

lemma slice_columns_eq:
  assumes "screen \<noteq> []" and "columns b \<noteq> 0"
  shows "slice_columns b screen =
     Inr (map (\<lambda>j. concat (map (\<lambda>row.
                 py_slice row
                   (int j * (int (length (hd screen)) div columns b)
                      + tolerance_of (int (length (hd screen)) div columns b))
                   ((int j + 1) * (int (length (hd screen)) div columns b)
                      - tolerance_of (int (length (hd screen)) div columns b))) screen))
            [0..<nat (columns b)])"
proof -
  from assms obtain row0 rest where "screen = row0 # rest" by (cases screen) auto
  with assms show ?thesis
    by (simp add: slice_columns_def Let_def slice_rows_replicate del: slice_rows.simps)
qed

lemma band_tolerance_eq: "band_tolerance w = (w + 2) div 5"
proof -
  have "round_half_even (real w * 0.2) = tolerance_of (int w)"
    using tolerance_of_round [of "int w"] by simp
  also have "\<dots> = int ((w + 2) div 5)"
    by (simp add: tolerance_of_def zdiv_int)
  finally show ?thesis by (simp add: band_tolerance_def)
qed

lemma tolerance_of_int: "tolerance_of (int w) = int (band_tolerance w)"
  by (simp add: band_tolerance_eq tolerance_of_def zdiv_int)

lemma band_tolerance_le: "2 * band_tolerance w \<le> w"
  unfolding band_tolerance_eq by arith

lemma py_slice_band:
  assumes "(i + 1) * w \<le> length row"
  shows "py_slice row (int i * int w + int (band_tolerance w))
           ((int i + 1) * int w - int (band_tolerance w)) =
         band w (band_tolerance w) i row"
proof -
  let ?t = "band_tolerance w"
  have t: "?t \<le> (i + 1) * w" using band_tolerance_le [of w] by simp
  have a: "int i * int w + int ?t = int (i * w + ?t)" by simp
  have b: "(int i + 1) * int w - int ?t = int ((i + 1) * w - ?t)"
    using t by (simp add: of_nat_diff algebra_simps)
  have "(i + 1) * w - ?t \<le> length row" using assms by simp
  then have "py_slice row (int (i * w + ?t)) (int ((i + 1) * w - ?t)) =
      map ((!) row) [nat (int (i * w + ?t))..<nat (int ((i + 1) * w - ?t))]"
    by (intro py_slice_nat) simp_all
  then have "py_slice row (int (i * w + ?t)) (int ((i + 1) * w - ?t)) = band w ?t i row"
    by (simp only: nat_int band_def)
  then show ?thesis by (simp only: a b)
qed

lemma slice_columns_bands:
  assumes ne: "screen \<noteq> []"
    and len: "\<forall>row\<in>set screen. length row = W"
    and c: "1 \<le> columns b"
  shows "slice_columns b screen = Inr (bands W (nat (columns b)) screen)"
proof -
  let ?c = "nat (columns b)"
  let ?w = "band_width W ?c"
  let ?t = "band_tolerance ?w"
  from ne len have hd: "length (hd screen) = W" by (cases screen) auto
  have w: "int W div columns b = int ?w"
    using c by (simp add: band_width_def zdiv_int)
  have cw: "?c * ?w \<le> W" by (simp add: band_width_def)
  have slice: "py_slice row (int j * int ?w + int ?t) ((int j + 1) * int ?w - int ?t) =
      band ?w ?t j row" if "row \<in> set screen" and "j < ?c" for row j
  proof -
    from that(2) have "(j + 1) * ?w \<le> ?c * ?w" by (intro mult_le_mono1) simp
    with cw that(1) len have "(j + 1) * ?w \<le> length row" by simp
    then show ?thesis by (rule py_slice_band)
  qed
  have "slice_columns b screen =
      Inr (map (\<lambda>j. concat (map (\<lambda>row.
             py_slice row (int j * int ?w + int ?t) ((int j + 1) * int ?w - int ?t)) screen))
            [0..<?c])"
    using c by (subst slice_columns_eq [OF ne]) (simp_all add: hd w tolerance_of_int)
  also have "\<dots> = Inr (bands W ?c screen)"
    by (simp add: bands_def Let_def slice cong: map_cong)
  finally show ?thesis .
qed

lemma nth_bands:
  "i < c \<Longrightarrow> bands W c screen ! i =
     concat (map (band (band_width W c) (band_tolerance (band_width W c)) i) screen)"
  by (simp add: bands_def Let_def)

lemma set_band_subset:
  assumes "(i + 1) * w \<le> length row"
  shows "set (band w t i row) \<subseteq> set row"
proof -
  have "j < length row" if "j < (i + 1) * w - t" for j
    using that assms by simp
  then show ?thesis by (auto simp: band_def)
qed

lemma np_all_concat:
  "np_all (concat xss) = (\<forall>xs\<in>set xss. \<forall>p\<in>set xs. p \<noteq> 0)"
  by (auto simp: np_all_def list_all_iff)

lemma band_end_le:
  assumes "i < c"
  shows "(i + 1) * band_width W c \<le> W"
proof -
  from assms have "(i + 1) * band_width W c \<le> c * band_width W c"
    by (intro mult_le_mono1) simp
  also have "\<dots> \<le> W" by (simp add: band_width_def)
  finally show ?thesis .
qed

lemma column_signals_bands:
  assumes "screen \<noteq> []" and "\<forall>row\<in>set screen. length row = W" and "1 \<le> columns b"
  shows "column_signals b screen = Inr (map np_all (bands W (nat (columns b)) screen))"
  using slice_columns_bands [OF assms] by (simp add: column_signals_def)

lemma length_bands [simp]: "length (bands W c screen) = c"
  by (simp add: bands_def Let_def)

lemma py_slice_empty [simp]: "py_slice xs 0 0 = []"
  by (simp add: py_slice_def slice_index_def)


section \<open>One column within a call\<close>

lemma key_codes_None: "(key_codes i = None) = (10 \<le> i)"
  by (auto simp: key_codes_def)

lemma key_codes_inj: "key_codes i = Some k \<Longrightarrow> key_codes j = Some k \<Longrightarrow> i = j"
  by (auto simp: key_codes_def split: if_splits)

lemma length_handle_cols [simp]:
  "length (fst (snd (handle_cols cs s cols states))) = length states"
  by (induction cols arbitrary: s states) (auto simp: case_prod_beta split: option.splits)

lemma handle_cols_nth_unchanged:
  assumes "i < s \<or> cs i = None"
  shows "fst (snd (handle_cols cs s cols states)) ! i = states ! i"
  using assms
proof (induction cols arbitrary: s states)
  case Nil
  then show ?case by simp
next
  case (Cons col rest)
  have next_call: "i < Suc s \<or> cs i = None" using Cons.prems by auto
  have other: "s \<noteq> i" if "cs s = Some k" for k using Cons.prems that by auto
  show ?case
    using Cons.IH [OF next_call] other
    by (auto simp: case_prod_beta split: option.splits)
qed

lemma filter_spec_action:
  "filter (\<lambda>a. action_key a = k) (spec_action signal held k') =
     (if k' = k then spec_action signal held k else [])"
  by (simp add: spec_action_def)

lemma handle_cols_filter_later:
  assumes "i < s" and "\<forall>j. cs j = Some k \<longrightarrow> j = i"
  shows "filter (\<lambda>a. action_key a = k) (fst (handle_cols cs s cols states)) = []"
  using assms(1)
proof (induction cols arbitrary: s states)
  case Nil
  then show ?case by simp
next
  case (Cons col rest)
  have other: "k' \<noteq> k" if "cs s = Some k'" for k' using Cons.prems assms(2) that by auto
  from Cons.prems have "i < Suc s" by simp
  from Cons.IH [OF this] other show ?case
    by (auto simp: case_prod_beta split: option.splits)
qed

lemma handle_cols_column_actions:
  assumes "s \<le> i" and "cs i = Some k" and "\<forall>j. cs j = Some k \<longrightarrow> j = i"
    and "\<forall>j. s \<le> j \<and> j < i \<longrightarrow> cs j \<noteq> None"
  shows "filter (\<lambda>a. action_key a = k) (fst (handle_cols cs s cols states)) =
     (if i < s + length cols \<and> i < length states
      then spec_action (np_all (cols ! (i - s))) (states ! i) k else [])"
  using assms(1,4)
proof (induction cols arbitrary: s states)
  case Nil
  then show ?case by simp
next
  case (Cons col rest)
  show ?case
  proof (cases "s < length states")
    case False
    with Cons.prems show ?thesis by simp
  next
    case in_range: True
    show ?thesis
    proof (cases "s = i")
      case True
      have later: "filter (\<lambda>a. action_key a = k)
          (fst (handle_cols cs (Suc i) rest (states[i := np_all col]))) = []"
        using assms(3) by (intro handle_cols_filter_later) simp_all
      from in_range True have i: "i < length states" by simp
      have "handle_cols cs i (col # rest) states =
        (case handle_cols cs (Suc i) rest (states[i := np_all col]) of
           (acts, states', err) \<Rightarrow>
             (spec_action (np_all col) (states ! i) k @ acts, states', err))"
        using i assms(2) by (rule handle_cols_step)
      with later True i show ?thesis
        by (simp add: filter_spec_action case_prod_beta)
    next
      case False
      with Cons.prems have lt: "s < i" and suc: "Suc s \<le> i" by simp_all
      from Cons.prems lt obtain k' where k': "cs s = Some k'" by fastforce
      with assms(3) lt have neq: "k' \<noteq> k" by auto
      have dom: "\<forall>j. Suc s \<le> j \<and> j < i \<longrightarrow> cs j \<noteq> None" using Cons.prems by simp
      have step: "handle_cols cs s (col # rest) states =
        (case handle_cols cs (Suc s) rest (states[s := np_all col]) of
           (acts, states', err) \<Rightarrow>
             (spec_action (np_all col) (states ! s) k' @ acts, states', err))"
        using in_range k' by (rule handle_cols_step)
      have nth: "(col # rest) ! (i - s) = rest ! (i - Suc s)"
        using lt by (simp add: nth_Cons')
      have upd: "states[s := np_all col] ! i = states ! i" using lt by simp
      have less: "(i < s + length (col # rest)) = (i < Suc s + length rest)" by simp
      show ?thesis
        unfolding step nth less
        using Cons.IH [OF suc dom, of "states[s := np_all col]"] neq
        by (simp add: filter_spec_action upd case_prod_beta)
    qed
  qed
qed

lemma handle_cols_column_state:
  assumes "s \<le> i" and "i < length states"
    and "\<forall>j. s \<le> j \<and> j \<le> i \<longrightarrow> cs j \<noteq> None"
  shows "fst (snd (handle_cols cs s cols states)) ! i =
     (if i < s + length cols then np_all (cols ! (i - s)) else states ! i)"
  using assms
proof (induction cols arbitrary: s states)
  case Nil
  then show ?case by simp
next
  case (Cons col rest)
  from Cons.prems have in_range: "s < length states" by simp
  from Cons.prems obtain k' where k': "cs s = Some k'" by fastforce
  have step: "handle_cols cs s (col # rest) states =
    (case handle_cols cs (Suc s) rest (states[s := np_all col]) of
       (acts, states', err) \<Rightarrow>
         (spec_action (np_all col) (states ! s) k' @ acts, states', err))"
    using in_range k' by (rule handle_cols_step)
  show ?case
  proof (cases "s = i")
    case True
    have "fst (snd (handle_cols cs (Suc i) rest (states[i := np_all col]))) ! i =
        states[i := np_all col] ! i"
      by (rule handle_cols_nth_unchanged) simp
    with True in_range show ?thesis
      unfolding step by (simp add: case_prod_beta)
  next
    case False
    with Cons.prems have lt: "s < i" and suc: "Suc s \<le> i" by simp_all
    have len: "i < length (states[s := np_all col])" using Cons.prems by simp
    have dom: "\<forall>j. Suc s \<le> j \<and> j \<le> i \<longrightarrow> cs j \<noteq> None" using Cons.prems by simp
    have nth: "(col # rest) ! (i - s) = rest ! (i - Suc s)"
      using lt by (simp add: nth_Cons')
    have less: "(i < s + length (col # rest)) = (i < Suc s + length rest)" by simp
    show ?thesis
      unfolding step nth less
      using Cons.IH [OF suc len dom] lt
      by (simp add: case_prod_beta)
  qed
qed

lemma key_codes_unique:
  "key_codes i = Some k \<Longrightarrow> \<forall>j. key_codes j = Some k \<longrightarrow> j = i"
  by (blast dest: key_codes_inj)

lemma key_codes_below:
  assumes "key_codes i = Some k"
  shows "\<forall>j. s \<le> j \<and> j < i \<longrightarrow> key_codes j \<noteq> None"
proof -
  from assms have "i < 10" using key_codes_None [of i] by simp
  then show ?thesis by (simp add: key_codes_None)
qed

lemma handle_press_column_actions:
  assumes "codes b = key_codes"
  shows "column_actions (codes b) i (fst (handle_press b cols)) =
     (case key_codes i of
        None \<Rightarrow> []
      | Some k \<Rightarrow>
          if i < length cols \<and> i < length (col_states b)
          then spec_action (np_all (cols ! i)) (col_states b ! i) k else [])"
proof (cases "key_codes i")
  case None
  with assms show ?thesis by (simp add: column_actions_def)
next
  case (Some k)
  have "filter (\<lambda>a. action_key a = k) (fst (handle_cols key_codes 0 cols (col_states b))) =
     (if i < 0 + length cols \<and> i < length (col_states b)
      then spec_action (np_all (cols ! (i - 0))) (col_states b ! i) k else [])"
    by (rule handle_cols_column_actions
        [OF le0 Some key_codes_unique [OF Some] key_codes_below [OF Some]])
  then have "filter (\<lambda>a. action_key a = k) (fst (handle_cols key_codes 0 cols (col_states b))) =
     (if i < length cols \<and> i < length (col_states b)
      then spec_action (np_all (cols ! i)) (col_states b ! i) k else [])"
    by simp
  moreover have "fst (handle_press b cols) = fst (handle_cols key_codes 0 cols (col_states b))"
    using assms by (simp add: handle_press_def case_prod_beta)
  moreover have "column_actions (codes b) i acts = filter (\<lambda>a. action_key a = k) acts" for acts
    using assms Some by (simp add: column_actions_def)
  ultimately show ?thesis using Some by simp
qed

lemma bands_agree:
  assumes "length screen1 = length screen2"
    and "\<forall>r<length screen1. \<forall>j. i * w + t \<le> j \<and> j < (i + 1) * w - t \<longrightarrow>
           screen1 ! r ! j = screen2 ! r ! j"
  shows "concat (map (band w t i) screen1) = concat (map (band w t i) screen2)"
proof -
  have "map (band w t i) screen1 = map (band w t i) screen2"
  proof (rule nth_equalityI)
    show "length (map (band w t i) screen1) = length (map (band w t i) screen2)"
      using assms(1) by simp
  next
    fix r assume "r < length (map (band w t i) screen1)"
    then have r: "r < length screen1" by simp
    with assms(2) have "band w t i (screen1 ! r) = band w t i (screen2 ! r)"
      by (simp add: band_def)
    with r assms(1) show "map (band w t i) screen1 ! r = map (band w t i) screen2 ! r"
      by simp
  qed
  then show ?thesis by simp
qed

lemma process_frame_bands:
  assumes "screen \<noteq> []" and "\<forall>row\<in>set screen. length row = W" and "1 \<le> columns b"
  shows "process_frame b screen = handle_press b (bands W (nat (columns b)) screen)"
  using slice_columns_bands [OF assms] by (simp add: process_frame_def)

section \<open>Sequences of calls\<close>

lemma alternates_append:
  "alternates held (xs @ ys) = (alternates held xs \<and> alternates (held_end held xs) ys)"
  by (induction held xs rule: alternates.induct) simp_all

lemma held_end_append: "held_end held (xs @ ys) = held_end (held_end held xs) ys"
  by (induction held xs rule: held_end.induct) simp_all

lemma alternates_spec_action: "alternates held (spec_action signal held k)"
  by (simp add: spec_action_def)

lemma held_end_spec_action: "held_end held (spec_action signal held k) = signal"
  by (auto simp: spec_action_def)

lemma column_actions_append:
  "column_actions cs i (xs @ ys) = column_actions cs i xs @ column_actions cs i ys"
  by (simp add: column_actions_def split: option.split)

lemma column_actions_Nil [simp]: "column_actions cs i [] = []"
  by (simp add: column_actions_def split: option.split)

lemma codes_handle_press [simp]: "codes (fst (snd (handle_press b cols))) = codes b"
  by (simp add: handle_press_def case_prod_beta)

lemma col_states_handle_press:
  "col_states (fst (snd (handle_press b cols))) =
     fst (snd (handle_cols (codes b) 0 cols (col_states b)))"
  by (simp add: handle_press_def case_prod_beta)

lemma length_col_states_handle_press [simp]:
  "length (col_states (fst (snd (handle_press b cols)))) = length (col_states b)"
  by (simp add: col_states_handle_press)

lemma handle_press_column_state:
  assumes "codes b = key_codes" and "i < length (col_states b)"
  shows "col_states (fst (snd (handle_press b cols))) ! i =
     (if key_codes i \<noteq> None \<and> i < length cols then np_all (cols ! i) else col_states b ! i)"
proof (cases "key_codes i")
  case None
  then have "fst (snd (handle_cols key_codes 0 cols (col_states b))) ! i = col_states b ! i"
    by (intro handle_cols_nth_unchanged) simp
  with None assms(1) show ?thesis by (simp add: col_states_handle_press)
next
  case (Some k)
  then have "i < 10" using key_codes_None [of i] by simp
  then have dom: "\<forall>j. 0 \<le> j \<and> j \<le> i \<longrightarrow> key_codes j \<noteq> None"
    by (simp add: key_codes_None)
  have "fst (snd (handle_cols key_codes 0 cols (col_states b))) ! i =
     (if i < 0 + length cols then np_all (cols ! (i - 0)) else col_states b ! i)"
    by (rule handle_cols_column_state [OF le0 assms(2) dom])
  with Some assms(1) show ?thesis by (simp add: col_states_handle_press)
qed

lemma handle_press_column_trace:
  assumes "codes b = key_codes" and "i < length (col_states b)"
  shows "alternates (col_states b ! i) (column_actions key_codes i (fst (handle_press b cols)))"
    and "held_end (col_states b ! i) (column_actions key_codes i (fst (handle_press b cols))) =
         col_states (fst (snd (handle_press b cols))) ! i"
  using handle_press_column_actions [OF assms(1), of i cols] assms
  by (auto simp: handle_press_column_state alternates_spec_action held_end_spec_action
      split: option.splits)

lemma handle_press_calls_Cons:
  "handle_press_calls b (cols # rest) =
     (if snd (snd (handle_press b cols)) = None
      then (fst (handle_press b cols) @ fst (handle_press_calls (fst (snd (handle_press b cols))) rest),
            fst (snd (handle_press_calls (fst (snd (handle_press b cols))) rest)),
            snd (snd (handle_press_calls (fst (snd (handle_press b cols))) rest)))
      else handle_press b cols)"
  by (cases "handle_press b cols") (auto simp: case_prod_beta split: option.splits)

lemma handle_press_calls_column_trace:
  assumes "codes b = key_codes" and "i < length (col_states b)"
  shows "alternates (col_states b ! i)
           (column_actions key_codes i (fst (handle_press_calls b calls))) \<and>
         held_end (col_states b ! i)
           (column_actions key_codes i (fst (handle_press_calls b calls))) =
         col_states (fst (snd (handle_press_calls b calls))) ! i"
  using assms
proof (induction calls arbitrary: b)
  case Nil
  then show ?case by simp
next
  case (Cons cols rest)
  let ?b' = "fst (snd (handle_press b cols))"
  note one = handle_press_column_trace [OF Cons.prems, of cols]
  show ?case
  proof (cases "snd (snd (handle_press b cols)) = None")
    case True
    have "codes ?b' = key_codes" and "i < length (col_states ?b')"
      using Cons.prems by simp_all
    from Cons.IH [OF this] one True show ?thesis
      by (simp add: handle_press_calls_Cons column_actions_append alternates_append
          held_end_append del: handle_press_calls.simps)
  next
    case False
    with one show ?thesis
      by (auto simp: handle_press_calls_Cons simp del: handle_press_calls.simps)
  qed
qed

section \<open>Columns without a key\<close>




section \<open>The claims\<close>

text \<open>
  C7. Steady state is idempotent: when the signals of the columns passed to
  \<^verbatim>\<open>_handle_press\<close> equal the current column states, any number \<open>n\<close> of repeated calls
  with these columns issues no key action, raises nothing and leaves the bot as it was.
\<close>

theorem steady_state_idempotent:
  "map np_all cols = col_states b \<Longrightarrow>
   handle_press_calls b (replicate n cols) = ([], b, None)"
  by (induction n) (simp_all add: handle_press_steady)

theorem steady_state_idempotent_witness:
  "map np_all [[255, 255], [0, 255], []] =
     col_states \<lparr>bbox = (0, 0, 4, 1), columns = 3, col_states = [True, False, True],
                 codes = key_codes, inplay = True\<rparr>
   \<and> handle_press_calls
       \<lparr>bbox = (0, 0, 4, 1), columns = 3, col_states = [True, False, True],
        codes = key_codes, inplay = True\<rparr>
       (replicate 5 [[255, 255], [0, 255], []]) =
     ([], \<lparr>bbox = (0, 0, 4, 1), columns = 3, col_states = [True, False, True],
           codes = key_codes, inplay = True\<rparr>, None)"
  using steady_state_idempotent [of "[[255, 255], [0, 255], []]"
      "\<lparr>bbox = (0, 0, 4, 1), columns = 3, col_states = [True, False, True],
        codes = key_codes, inplay = True\<rparr>" 5]
  by (simp add: np_all_def)

text \<open>
  C3, as the code has it. For a frame with at least one row, all rows of length \<open>W\<close>,
  and a column count between 1 and \<open>W\<close>, \<^verbatim>\<open>_slice_columns\<close> returns exactly the bands of the specification: the width is
  \<open>W div columnCount\<close>, the tolerance is \<open>round (width * 0.2)\<close>, and column \<open>i\<close> holds, row
  after row, the samples at the positions from \<open>i * width + tolerance\<close> up to, not
  including, \<open>(i + 1) * width - tolerance\<close>. For \<open>W = 100\<close> and four columns, column 0
  holds the samples at the positions 5 to 19 of every row.
\<close>

theorem slice_columns_is_bands:
  assumes "screen \<noteq> []" and "\<forall>row\<in>set screen. length row = W"
    and "1 \<le> columns b" and "columns b \<le> int W"
  shows "slice_columns b screen = Inr (bands W (nat (columns b)) screen) \<and>
    (W = 100 \<and> columns b = 4 \<longrightarrow>
       bands W (nat (columns b)) screen ! 0 =
         concat (map (\<lambda>row. map ((!) row) [5..<20]) screen))"
proof
  show "slice_columns b screen = Inr (bands W (nat (columns b)) screen)"
    using assms(1-3) by (rule slice_columns_bands)
  show "W = 100 \<and> columns b = 4 \<longrightarrow>
       bands W (nat (columns b)) screen ! 0 =
         concat (map (\<lambda>row. map ((!) row) [5..<20]) screen)"
  proof
    assume "W = 100 \<and> columns b = 4"
    then have W: "W = 100" and c: "nat (columns b) = 4" by simp_all
    have w: "band_width 100 4 = 25" by (simp add: band_width_def)
    have t: "band_tolerance 25 = 5" by (simp add: band_tolerance_eq)
    have "band 25 5 0 = (\<lambda>row. map ((!) row) [5..<20])"
      by (rule ext) (simp add: band_def)
    then show "bands W (nat (columns b)) screen ! 0 =
         concat (map (\<lambda>row. map ((!) row) [5..<20]) screen)"
      unfolding W c by (simp add: nth_bands w t)
  qed
qed

theorem slice_columns_is_bands_witness:
  "slice_columns
     \<lparr>bbox = (0, 0, 100, 2), columns = 4, col_states = [False, False, False, False],
      codes = key_codes, inplay = True\<rparr>
     [replicate 5 0 @ replicate 15 255 @ replicate 80 0,
      replicate 20 255 @ replicate 80 0] =
   Inr (bands 100 4
     [replicate 5 0 @ replicate 15 255 @ replicate 80 0,
      replicate 20 255 @ replicate 80 0])
   \<and> bands 100 4
     [replicate 5 0 @ replicate 15 255 @ replicate 80 0,
      replicate 20 255 @ replicate 80 0] ! 0 =
      [255, 255, 255, 255, 255, 255, 255, 255, 255, 255, 255, 255, 255, 255, 255, 255,
       255, 255, 255, 255, 255, 255, 255, 255, 255, 255, 255, 255, 255, 255]"
  using slice_columns_is_bands [of
      "[replicate 5 0 @ replicate 15 255 @ replicate 80 0,
        replicate 20 255 @ replicate 80 0]" 100
      "\<lparr>bbox = (0, 0, 100, 2), columns = 4, col_states = [False, False, False, False],
        codes = key_codes, inplay = True\<rparr>"]
  by (simp add: nth_append)

text \<open>
  C3 as stated fails on the frame without rows: all of its rows have length 100 and the
  column count 4 lies between 1 and 100, but \<^verbatim>\<open>screen[0]\<close> raises \<^verbatim>\<open>IndexError\<close> before
  any band is cut, so the bands of the specification are not what the call returns.
\<close>

theorem slice_columns_no_rows_counterexample:
  "list_all (\<lambda>row. length row = 100) ([] :: screen)
   \<and> 1 \<le> columns \<lparr>bbox = (0, 0, 100, 0), columns = 4,
                     col_states = [False, False, False, False], codes = key_codes,
                     inplay = True\<rparr>
   \<and> columns \<lparr>bbox = (0, 0, 100, 0), columns = 4,
                 col_states = [False, False, False, False], codes = key_codes,
                 inplay = True\<rparr> \<le> 100
   \<and> slice_columns
        \<lparr>bbox = (0, 0, 100, 0), columns = 4, col_states = [False, False, False, False],
         codes = key_codes, inplay = True\<rparr> [] = Inl IndexError
   \<and> slice_columns
        \<lparr>bbox = (0, 0, 100, 0), columns = 4, col_states = [False, False, False, False],
         codes = key_codes, inplay = True\<rparr> [] \<noteq> Inr (bands 100 4 [])"
  by (simp add: slice_columns_def)

text \<open>
  C6, as the code has it. For a frame with at least one row, all rows of length \<open>W\<close>,
  and a column count between 1 and \<open>W\<close>, the reduction returns a sequence of exactly as many signals as there are columns.
\<close>

theorem signals_one_per_column:
  assumes "screen \<noteq> []" and "\<forall>row\<in>set screen. length row = W"
    and "1 \<le> columns b" and "columns b \<le> int W"
  shows "\<exists>signals. column_signals b screen = Inr signals \<and>
           int (length signals) = columns b"
  using column_signals_bands [OF assms(1-3)] assms(3) by simp

theorem signals_one_per_column_witness:
  "column_signals
     \<lparr>bbox = (0, 0, 7, 2), columns = 3, col_states = [False, False, False],
      codes = key_codes, inplay = True\<rparr>
     [[255, 255, 0, 0, 255, 255, 255], [255, 255, 0, 255, 255, 255, 0]] =
   Inr [True, False, True]
   \<and> int (length [True, False, True]) = 3"
proof -
  from signals_one_per_column [of
      "[[255, 255, 0, 0, 255, 255, 255], [255, 255, 0, 255, 255, 255, 0]]" 7
      "\<lparr>bbox = (0, 0, 7, 2), columns = 3, col_states = [False, False, False],
        codes = key_codes, inplay = True\<rparr>"]
  obtain signals where "column_signals
     \<lparr>bbox = (0, 0, 7, 2), columns = 3, col_states = [False, False, False],
      codes = key_codes, inplay = True\<rparr>
     [[255, 255, 0, 0, 255, 255, 255], [255, 255, 0, 255, 255, 255, 0]] = Inr signals"
    and "int (length signals) = 3"
    by auto
  moreover have "column_signals
     \<lparr>bbox = (0, 0, 7, 2), columns = 3, col_states = [False, False, False],
      codes = key_codes, inplay = True\<rparr>
     [[255, 255, 0, 0, 255, 255, 255], [255, 255, 0, 255, 255, 255, 0]] =
   Inr [True, False, True]"
    by code_simp
  ultimately show ?thesis by simp
qed

text \<open>
  C6 as stated fails on the frame without rows: with all rows (there are none) of length
  100 and four columns, the reduction raises \<^verbatim>\<open>IndexError\<close> and returns no signals at
  all, not four.
\<close>

theorem signals_no_rows_counterexample:
  "list_all (\<lambda>row. length row = 100) ([] :: screen)
   \<and> column_signals
        \<lparr>bbox = (0, 0, 100, 0), columns = 4, col_states = [False, False, False, False],
         codes = key_codes, inplay = True\<rparr> [] = Inl IndexError
   \<and> column_signals
        \<lparr>bbox = (0, 0, 100, 0), columns = 4, col_states = [False, False, False, False],
         codes = key_codes, inplay = True\<rparr> [] \<noteq> Inr [False, False, False, False]
   \<and> column_signals
        \<lparr>bbox = (0, 0, 100, 0), columns = 4, col_states = [False, False, False, False],
         codes = key_codes, inplay = True\<rparr> [] \<noteq> Inr [True, True, True, True]"
  by (simp add: column_signals_def slice_columns_def)

text \<open>
  C4, as the code has it. For a frame with at least one row, all rows of length \<open>W\<close>,
  whose samples are all 0 or 255, and a column count between 1 and \<open>W\<close>: the signal of column \<open>i\<close> is true if and only if every
  sample of the band of column \<open>i\<close>, in every row, is 255.
\<close>

theorem signal_iff_band_all_on:
  assumes "screen \<noteq> []" and "\<forall>row\<in>set screen. length row = W"
    and "1 \<le> columns b" and "columns b \<le> int W"
    and "\<forall>row\<in>set screen. \<forall>p\<in>set row. p = 0 \<or> p = 255"
  shows "column_signals b screen =
     Inr (map (\<lambda>i. \<forall>row\<in>set screen.
                 \<forall>p\<in>set (band (band_width W (nat (columns b)))
                              (band_tolerance (band_width W (nat (columns b)))) i row).
                   p = 255)
            [0..<nat (columns b)])"
proof -
  let ?c = "nat (columns b)"
  let ?w = "band_width W ?c"
  let ?t = "band_tolerance ?w"
  have on: "(p \<noteq> 0) = (p = 255)"
    if "row \<in> set screen" and "i < ?c" and "p \<in> set (band ?w ?t i row)" for row i p
  proof -
    from that(2) have "(i + 1) * ?w \<le> W" by (rule band_end_le)
    with that(1) assms(2) have "set (band ?w ?t i row) \<subseteq> set row"
      by (intro set_band_subset) simp
    with that(3) have "p \<in> set row" by blast
    with that(1) assms(5) have "p = 0 \<or> p = 255" by blast
    then show ?thesis by auto
  qed
  have "map np_all (bands W ?c screen) =
      map (\<lambda>i. \<forall>row\<in>set screen. \<forall>p\<in>set (band ?w ?t i row). p = 255) [0..<?c]"
    by (rule nth_equalityI) (simp_all add: nth_bands np_all_concat on)
  with column_signals_bands [OF assms(1-3)] show ?thesis by simp
qed

theorem signal_iff_band_all_on_witness:
  "column_signals
     \<lparr>bbox = (0, 0, 7, 2), columns = 3, col_states = [False, True, False],
      codes = key_codes, inplay = True\<rparr>
     [[255, 255, 0, 0, 255, 255, 0], [255, 255, 0, 255, 255, 255, 0]] =
   Inr [True, False, True]"
proof -
  have "band_width 7 3 = 2" by (simp add: band_width_def)
  moreover have "band_tolerance 2 = 0" by (simp add: band_tolerance_eq)
  moreover have "[0..<3] = [0, 1, 2]" by (simp add: upt_rec)
  ultimately show ?thesis
    using signal_iff_band_all_on [of
      "[[255, 255, 0, 0, 255, 255, 0], [255, 255, 0, 255, 255, 255, 0]]" 7
      "\<lparr>bbox = (0, 0, 7, 2), columns = 3, col_states = [False, True, False],
        codes = key_codes, inplay = True\<rparr>"]
    by (simp add: band_def upt_rec)
qed

text \<open>
  C4 as stated fails on the frame without rows: its samples (there are none) are all 0
  or 255 and every sample of the band of column 0 is 255, vacuously, yet the reduction
  gives no true signal for column 0: it raises \<^verbatim>\<open>IndexError\<close>.
\<close>

theorem signal_no_rows_counterexample:
  "list_all (\<lambda>row. length row = 100) ([] :: screen)
   \<and> list_all (list_all (\<lambda>p. p = 0 \<or> p = 255)) ([] :: screen)
   \<and> list_all (\<lambda>p. p = 255) (bands 100 4 [] ! 0)
   \<and> column_signals
        \<lparr>bbox = (0, 0, 100, 0), columns = 4, col_states = [False, False, False, False],
         codes = key_codes, inplay = True\<rparr> [] = Inl IndexError"
  by (simp add: column_signals_def slice_columns_def bands_def)




text \<open>
  C8, as the code has it. Constructing the bot with a column count of 0 succeeds and
  gives an empty state list. With this bot the reduction never returns signals: on a
  screen with at least one row the floor division raises \<^verbatim>\<open>ZeroDivisionError\<close>, and on a
  screen without rows \<^verbatim>\<open>screen[0]\<close>, evaluated before the division, raises
  \<^verbatim>\<open>IndexError\<close>.
\<close>

theorem zero_columns_reduction_fails:
  "\<exists>b. init box 0 = Inr b \<and> col_states b = [] \<and>
     slice_columns b screen =
       (case screen of [] \<Rightarrow> Inl IndexError | row0 # rest \<Rightarrow> Inl ZeroDivisionError) \<and>
     column_signals b screen =
       (case screen of [] \<Rightarrow> Inl IndexError | row0 # rest \<Rightarrow> Inl ZeroDivisionError)"
  by (simp add: init_def initialize_states_def slice_columns_def column_signals_def
      split: list.split)

text \<open>
  C8 as stated fails on the screen without rows: the bot constructed with a column count
  of 0 raises \<^verbatim>\<open>IndexError\<close> there, not \<^verbatim>\<open>ZeroDivisionError\<close>.
\<close>

theorem zero_columns_no_rows_counterexample:
  "init (0, 0, 4, 1) 0 =
     Inr \<lparr>bbox = (0, 0, 4, 1), columns = 0, col_states = [], codes = key_codes,
          inplay = False\<rparr>
   \<and> column_signals
        \<lparr>bbox = (0, 0, 4, 1), columns = 0, col_states = [], codes = key_codes,
         inplay = False\<rparr> [] = Inl IndexError
   \<and> column_signals
        \<lparr>bbox = (0, 0, 4, 1), columns = 0, col_states = [], codes = key_codes,
         inplay = False\<rparr> [] \<noteq> Inl ZeroDivisionError"
  by (simp add: init_def initialize_states_def slice_columns_def column_signals_def)

text \<open>
  C2, as the code has it. When the columns passed to \<^verbatim>\<open>_handle_press\<close> are as many as
  the column states and every column index has an entry in the key table, the call raises
  nothing and treats each column \<open>i\<close>, in order, as the specification says: with the
  signal \<open>np.all(cols[i])\<close> true and the state false it presses the key of the column and
  sets the state to true; with the signal false and the state true it releases the key
  and sets the state to false; otherwise it issues nothing for the column and leaves its
  state. So each column contributes at most one action, and the state left behind is
  what the emitted actions say.
\<close>

theorem handle_press_transitions:
  assumes "length cols = length (col_states b)"
    and "\<forall>i<length cols. codes b i \<noteq> None"
  shows "handle_press b cols =
     (concat (map (\<lambda>i. spec_action (np_all (cols ! i)) (col_states b ! i) (the (codes b i)))
                [0..<length cols]),
      b\<lparr>col_states :=
          map (\<lambda>i. spec_state (np_all (cols ! i)) (col_states b ! i)) [0..<length cols]\<rparr>,
      None)"
proof -
  have "map (\<lambda>i. spec_state (np_all (cols ! i)) (col_states b ! i)) [0..<length cols] =
      map np_all cols"
    by (rule nth_equalityI) (simp_all add: spec_state_signal)
  moreover have "handle_cols (codes b) 0 cols (col_states b) =
     (concat (map (\<lambda>j. spec_action (np_all (cols ! j)) (col_states b ! (0 + j))
                          (the (codes b (0 + j)))) [0..<length cols]),
      take 0 (col_states b) @ map np_all cols @ drop (0 + length cols) (col_states b),
      None)"
    using assms by (intro handle_cols_bound) simp_all
  ultimately show ?thesis
    using assms(1) by (simp add: handle_press_def)
qed

theorem handle_press_transitions_witness:
  "handle_press
     \<lparr>bbox = (0, 0, 8, 1), columns = 4, col_states = [False, False, True, True],
      codes = key_codes, inplay = True\<rparr>
     [[255, 255], [0, 255], [255, 255], [255, 0]] =
   ([PressKey 2, ReleaseKey 5],
    \<lparr>bbox = (0, 0, 8, 1), columns = 4, col_states = [True, False, True, False],
      codes = key_codes, inplay = True\<rparr>,
    None)"
proof -
  have "[0..<4] = [0, 1, 2, 3]" by (simp add: upt_rec)
  then show ?thesis
    using handle_press_transitions [of "[[255, 255], [0, 255], [255, 255], [255, 0]]"
      "\<lparr>bbox = (0, 0, 8, 1), columns = 4, col_states = [False, False, True, True],
        codes = key_codes, inplay = True\<rparr>"]
    by (simp add: key_codes_None np_all_def spec_action_def spec_state_def key_codes_def)
qed

text \<open>
  C2 as stated fails for eleven columns: with every signal true and every state false,
  column 10 has no entry in the key table, so the call raises \<^verbatim>\<open>KeyError\<close> after the ten
  presses of the columns before it; it neither presses a key for column 10 nor sets its
  state.
\<close>

theorem eleven_columns_counterexample:
  "length [[255], [255], [255], [255], [255], [255], [255], [255], [255], [255], [255 :: pixel]] =
     length [False, False, False, False, False, False, False, False, False, False, False]
   \<and> np_all ([[255], [255], [255], [255], [255], [255], [255], [255], [255], [255], [255]] ! 10)
   \<and> handle_press
     \<lparr>bbox = (0, 0, 11, 1), columns = 11,
      col_states = [False, False, False, False, False, False, False, False, False, False, False],
      codes = key_codes, inplay = True\<rparr>
     [[255], [255], [255], [255], [255], [255], [255], [255], [255], [255], [255]] =
   ([PressKey 2, PressKey 3, PressKey 4, PressKey 5, PressKey 6, PressKey 7, PressKey 8,
     PressKey 9, PressKey 16, PressKey 17],
    \<lparr>bbox = (0, 0, 11, 1), columns = 11,
      col_states = [True, True, True, True, True, True, True, True, True, True, False],
      codes = key_codes, inplay = True\<rparr>,
    Some (KeyError 10))"
  by (simp add: handle_press_def np_all_def key_codes_def)

text \<open>
  C9. Take two frames with the same number of rows, all rows of both of length \<open>W\<close>, that
  agree on every sample of the band of column \<open>i\<close>: in every row, at the positions from
  \<open>i * width + tolerance\<close> up to, not including, \<open>(i + 1) * width - tolerance\<close>. Then the
  reduction gives the same result for column \<open>i\<close> on both (the same signal, or the same
  exception on frames without rows), and one iteration of the loop from the same bot
  issues the same actions on the key of column \<open>i\<close> for both.
\<close>

theorem column_depends_on_its_band:
  assumes "length screen1 = length screen2"
    and "\<forall>row\<in>set screen1. length row = W" and "\<forall>row\<in>set screen2. length row = W"
    and "i < nat (columns b)"
    and "codes b = key_codes"
    and "\<forall>r<length screen1. \<forall>j.
           i * band_width W (nat (columns b))
             + band_tolerance (band_width W (nat (columns b))) \<le> j \<and>
           j < (i + 1) * band_width W (nat (columns b))
             - band_tolerance (band_width W (nat (columns b))) \<longrightarrow>
           screen1 ! r ! j = screen2 ! r ! j"
  shows "map_sum id (\<lambda>signals. signals ! i) (column_signals b screen1) =
         map_sum id (\<lambda>signals. signals ! i) (column_signals b screen2) \<and>
         column_actions (codes b) i (fst (process_frame b screen1)) =
         column_actions (codes b) i (fst (process_frame b screen2))"
proof (cases "screen1 = []")
  case True
  with assms(1) have "screen2 = []" by simp
  with True show ?thesis by simp
next
  case False
  with assms(1) have ne: "screen1 \<noteq> []" "screen2 \<noteq> []" by auto
  let ?c = "nat (columns b)"
  from assms(4) have c: "1 \<le> columns b" by simp
  have eq: "bands W ?c screen1 ! i = bands W ?c screen2 ! i"
    using assms(4) bands_agree [OF assms(1,6)] by (simp add: nth_bands)
  have sig: "column_signals b screen1 = Inr (map np_all (bands W ?c screen1))"
    "column_signals b screen2 = Inr (map np_all (bands W ?c screen2))"
    using ne assms(2,3) c by (simp_all add: column_signals_bands)
  have frame: "process_frame b screen1 = handle_press b (bands W ?c screen1)"
    "process_frame b screen2 = handle_press b (bands W ?c screen2)"
    using ne assms(2,3) c by (simp_all add: process_frame_bands)
  have "map_sum id (\<lambda>signals. signals ! i) (column_signals b screen1) =
      map_sum id (\<lambda>signals. signals ! i) (column_signals b screen2)"
    unfolding sig using assms(4) eq by simp
  moreover have "column_actions (codes b) i (fst (process_frame b screen1)) =
      column_actions (codes b) i (fst (process_frame b screen2))"
    unfolding frame handle_press_column_actions [OF assms(5)] length_bands eq ..
  ultimately show ?thesis ..
qed

theorem column_depends_on_its_band_witness:
  "column_signals
     \<lparr>bbox = (0, 0, 7, 1), columns = 3, col_states = [False, False, False],
      codes = key_codes, inplay = True\<rparr>
     [[255, 255, 255, 255, 0, 0, 0]] = Inr [True, True, False]
   \<and> column_signals
     \<lparr>bbox = (0, 0, 7, 1), columns = 3, col_states = [False, False, False],
      codes = key_codes, inplay = True\<rparr>
     [[0, 0, 255, 255, 255, 255, 255]] = Inr [False, True, True]
   \<and> column_actions key_codes 1 (fst (process_frame
     \<lparr>bbox = (0, 0, 7, 1), columns = 3, col_states = [False, False, False],
      codes = key_codes, inplay = True\<rparr>
     [[255, 255, 255, 255, 0, 0, 0]])) = [PressKey 3]
   \<and> column_actions key_codes 1 (fst (process_frame
     \<lparr>bbox = (0, 0, 7, 1), columns = 3, col_states = [False, False, False],
      codes = key_codes, inplay = True\<rparr>
     [[0, 0, 255, 255, 255, 255, 255]])) = [PressKey 3]"
proof -
  let ?b = "\<lparr>bbox = (0, 0, 7, 1), columns = 3, col_states = [False, False, False],
      codes = key_codes, inplay = True\<rparr>"
  let ?s1 = "[[255, 255, 255, 255, 0, 0, 0 :: pixel]]"
  let ?s2 = "[[0, 0, 255, 255, 255, 255, 255 :: pixel]]"
  have w: "band_width 7 (nat (columns ?b)) = 2" by (simp add: band_width_def)
  have t: "band_tolerance 2 = 0" by (simp add: band_tolerance_eq)
  have agree: "\<forall>r<length ?s1. \<forall>j.
           1 * band_width 7 (nat (columns ?b))
             + band_tolerance (band_width 7 (nat (columns ?b))) \<le> j \<and>
           j < (1 + 1) * band_width 7 (nat (columns ?b))
             - band_tolerance (band_width 7 (nat (columns ?b))) \<longrightarrow>
           ?s1 ! r ! j = ?s2 ! r ! j"
    unfolding w t
  proof (intro allI impI)
    fix r j :: nat
    assume "r < length ?s1" and "1 * 2 + 0 \<le> j \<and> j < (1 + 1) * 2 - 0"
    then have "r = 0" and "j = 2 \<or> j = 3" by auto
    then show "?s1 ! r ! j = ?s2 ! r ! j" by auto
  qed
  have "map_sum id (\<lambda>signals. signals ! 1) (column_signals ?b ?s1) =
         map_sum id (\<lambda>signals. signals ! 1) (column_signals ?b ?s2) \<and>
         column_actions (codes ?b) 1 (fst (process_frame ?b ?s1)) =
         column_actions (codes ?b) 1 (fst (process_frame ?b ?s2))"
    by (rule column_depends_on_its_band [where W = 7, OF _ _ _ _ _ agree]) simp_all
  moreover have "column_signals ?b ?s1 = Inr [True, True, False]" by code_simp
  moreover have "column_signals ?b ?s2 = Inr [False, True, True]" by code_simp
  moreover have "column_actions key_codes 1 (fst (process_frame ?b ?s1)) = [PressKey 3]"
    by code_simp
  ultimately show ?thesis by simp
qed

text \<open>
  C10. Start from the bot that \<^verbatim>\<open>__init__\<close> builds, all columns not held, and make any
  sequence of calls of \<^verbatim>\<open>_handle_press\<close> (up to the exception that ends it, if one is
  raised). For every column \<open>i\<close> of the bot, the actions issued on the key of the column
  alternate, starting with a press: each press comes while the column is not held, each
  release while it is held, and the state of the column at the end is what the last of
  these actions left.
\<close>

theorem column_actions_alternate:
  assumes "init box n = Inr b0"
    and "handle_press_calls b0 calls = (acts, b, err)"
    and "i < nat n"
  shows "alternates False (column_actions (codes b0) i acts) \<and>
         held_end False (column_actions (codes b0) i acts) = col_states b ! i"
proof -
  from assms(1) have b0: "codes b0 = key_codes" "col_states b0 = replicate (nat n) False"
    by (auto simp: init_def initialize_states_def)
  with assms(3) have i: "i < length (col_states b0)" and held: "col_states b0 ! i = False"
    by simp_all
  from handle_press_calls_column_trace [OF b0(1) i, of calls] assms(2) held b0(1)
  show ?thesis by simp
qed

theorem column_actions_alternate_witness:
  "init (0, 0, 8, 1) 4 =
     Inr \<lparr>bbox = (0, 0, 8, 1), columns = 4, col_states = [False, False, False, False],
          codes = key_codes, inplay = False\<rparr>
   \<and> fst (handle_press_calls
       \<lparr>bbox = (0, 0, 8, 1), columns = 4, col_states = [False, False, False, False],
        codes = key_codes, inplay = False\<rparr>
       [[[255], [0], [255], [0]], [[0], [0], [255], [0]], [[255], [255], [0], [0]]]) =
     [PressKey 2, PressKey 4, ReleaseKey 2, PressKey 2, PressKey 3, ReleaseKey 4]
   \<and> alternates False (column_actions key_codes 0
       [PressKey 2, PressKey 4, ReleaseKey 2, PressKey 2, PressKey 3, ReleaseKey 4])
   \<and> column_actions key_codes 0
       [PressKey 2, PressKey 4, ReleaseKey 2, PressKey 2, PressKey 3, ReleaseKey 4] =
     [PressKey 2, ReleaseKey 2, PressKey 2]"
proof -
  let ?b0 = "\<lparr>bbox = (0, 0, 8, 1), columns = 4, col_states = [False, False, False, False],
        codes = key_codes, inplay = False\<rparr>"
  let ?calls = "[[[255], [0], [255], [0]], [[0], [0], [255], [0]], [[255], [255], [0], [0 :: pixel]]]"
  have init: "init (0, 0, 8, 1) 4 = Inr ?b0"
    by (simp add: init_def initialize_states_def numeral_eq_Suc)
  have run: "handle_press_calls ?b0 ?calls =
      (fst (handle_press_calls ?b0 ?calls), fst (snd (handle_press_calls ?b0 ?calls)),
       snd (snd (handle_press_calls ?b0 ?calls)))"
    by simp
  have acts: "fst (handle_press_calls ?b0 ?calls) =
      [PressKey 2, PressKey 4, ReleaseKey 2, PressKey 2, PressKey 3, ReleaseKey 4]"
    by code_simp
  have col: "column_actions key_codes 0
       [PressKey 2, PressKey 4, ReleaseKey 2, PressKey 2, PressKey 3, ReleaseKey 4] =
     [PressKey 2, ReleaseKey 2, PressKey 2]"
    by code_simp
  from column_actions_alternate [OF init run, of 0] init acts col
  show ?thesis by simp
qed




end
